theory Spec2Isabelle
  imports Complex_Main
begin

section \<open>Route planner of bookstore.py: distance model and the two tour solvers\<close>

text \<open>
  Python exceptions are values of a sum type. A start point is a pair \<open>(lat, lon)\<close> in
  degrees; a destination is the triple \<open>(lat, lon, address)\<close> that the caller builds
  from the geocoder's answer. The coordinates are finite numbers, and so is every number
  the functions below compute from them; a finite double is a real number.

  The functions are embedded twice. The first embedding reads the arithmetic of Python
  floats as exact arithmetic on the reals. The second, with the suffix \<open>_fp\<close>, takes
  the arithmetic as a parameter: every operation of \<open>math\<close> and every \<open>+\<close>,
  \<open>-\<close>, \<open>*\<close>, \<open>/\<close> and \<open>**\<close> on floats is a field of a record, so that what
  is proved of it for every arithmetic holds of the rounding arithmetic of doubles.
\<close>

datatype error = ValueError | TypeError | IndexError

type_synonym point = "real \<times> real"

type_synonym dest = "real \<times> real \<times> string"

subsection \<open>The functions of Python's math module that haversine calls\<close>

definition radians :: "real \<Rightarrow> real" where
  "radians x = x * pi / 180"

definition py_sqrt :: "real \<Rightarrow> error + real" where
  \<comment> \<open>math.sqrt raises ValueError (math domain error) on a negative argument.\<close>
  "py_sqrt x = (if x < 0 then Inl ValueError else Inr (sqrt x))"

definition atan2 :: "real \<Rightarrow> real \<Rightarrow> real" where
  \<comment> \<open>math.atan2(y, x): the angle of the vector (x, y), in the interval from -pi to pi;
      atan2(0, 0) is 0.\<close>
  "atan2 y x =
     (if 0 < x then arctan (y / x)
      else if x < 0 then (if 0 \<le> y then arctan (y / x) + pi else arctan (y / x) - pi)
      else if 0 < y then pi / 2
      else if y < 0 then - (pi / 2)
      else 0)"

subsection \<open>haversine\<close>

definition hav_x :: "point \<Rightarrow> point \<Rightarrow> real" where
  \<comment> \<open>The intermediate quantity \<open>x\<close> of haversine.\<close>
  "hav_x a b =
     (let lat1 = radians (fst a); lon1 = radians (snd a);
          lat2 = radians (fst b); lon2 = radians (snd b);
          dlat = lat2 - lat1; dlon = lon2 - lon1
      in (sin (dlat / 2))\<^sup>2 + cos lat1 * cos lat2 * (sin (dlon / 2))\<^sup>2)"

definition haversine :: "point \<Rightarrow> point \<Rightarrow> error + real" where
  "haversine a b =
     (let R = 6371; x = hav_x a b
      in case py_sqrt x of
           Inl e \<Rightarrow> Inl e
         | Inr s1 \<Rightarrow>
             (case py_sqrt (1 - x) of
                Inl e \<Rightarrow> Inl e
              | Inr s2 \<Rightarrow> Inr (R * 2 * atan2 s1 s2)))"

subsection \<open>Indexing the destination list\<close>

definition py_index :: "'a list \<Rightarrow> nat \<Rightarrow> error + 'a" where
  \<comment> \<open>\<open>points[i]\<close> for an index taken from \<open>range(len(points))\<close>: IndexError out of range.\<close>
  "py_index xs i = (if i < length xs then Inr (xs ! i) else Inl IndexError)"

definition coords :: "dest \<Rightarrow> point" where
  \<comment> \<open>The pair \<open>(points[i][0], points[i][1])\<close> of a destination triple.\<close>
  "coords p = (fst p, fst (snd p))"

subsection \<open>NearestNeighbourAlgorithm.compute\<close>

text \<open>
  The inner \<open>for i in unvisited\<close> loop: the state is \<open>(best, best_d)\<close>, with \<open>best\<close>
  starting as \<open>None\<close> and \<open>best_d\<close> as \<open>10**9\<close>.
\<close>

fun nn_scan :: "point \<Rightarrow> dest list \<Rightarrow> nat list \<Rightarrow> nat option \<times> real
                \<Rightarrow> error + (nat option \<times> real)" where
  "nn_scan current points [] (best, best_d) = Inr (best, best_d)"
| "nn_scan current points (i # rest) (best, best_d) =
     (case py_index points i of
        Inl e \<Rightarrow> Inl e
      | Inr p \<Rightarrow>
          (case haversine current (coords p) of
             Inl e \<Rightarrow> Inl e
           | Inr d \<Rightarrow>
               if d < best_d then nn_scan current points rest (Some i, d)
               else nn_scan current points rest (best, best_d)))"

text \<open>
  The \<open>while unvisited\<close> loop. \<open>points[best]\<close> with \<open>best = None\<close> raises TypeError, and
  \<open>unvisited.remove(best)\<close> raises ValueError when \<open>best\<close> is not in the list. The loop
  returns \<open>(order, tot, current)\<close>.
\<close>

function nn_loop :: "dest list \<Rightarrow> nat list \<Rightarrow> point \<Rightarrow> nat list \<Rightarrow> real
                     \<Rightarrow> error + (nat list \<times> real \<times> point)" where
  "nn_loop points unvisited current order tot =
     (if unvisited = [] then Inr (order, tot, current)
      else
        (case nn_scan current points unvisited (None, 10 ^ 9) of
           Inl e \<Rightarrow> Inl e
         | Inr (best, best_d) \<Rightarrow>
             (case best of
                None \<Rightarrow> Inl TypeError
              | Some b \<Rightarrow>
                  (case py_index points b of
                     Inl e \<Rightarrow> Inl e
                   | Inr p \<Rightarrow>
                       if b \<in> set unvisited
                       then nn_loop points (remove1 b unvisited) (coords p)
                              (order @ [b]) (tot + best_d)
                       else Inl ValueError))))"
  by pat_completeness auto
termination
  by (relation "measure (\<lambda>(points, unvisited, current, order, tot). length unvisited)")
     (auto simp: length_remove1 intro: length_pos_if_in_set)

definition NearestNeighbour_compute :: "point \<Rightarrow> dest list \<Rightarrow> error + (nat list \<times> real)" where
  "NearestNeighbour_compute start points =
     (case nn_loop points [0..<length points] start [] 0 of
        Inl e \<Rightarrow> Inl e
      | Inr (order, tot, current) \<Rightarrow>
          (case haversine current start of
             Inl e \<Rightarrow> Inl e
           | Inr d \<Rightarrow> Inr (order, tot + d)))"

subsection \<open>itertools.permutations\<close>

text \<open>
  \<open>permutations(iterable)\<close> of Python's itertools yields every ordering of the elements,
  by position, in lexicographic order of the positions: all orderings that start with the
  first element, then all that start with the second, and so on.
\<close>

fun selections :: "'a list \<Rightarrow> ('a \<times> 'a list) list" where
  \<comment> \<open>Each element together with the list of the others, from left to right.\<close>
  "selections [] = []"
| "selections (x # xs) = (x, xs) # map (\<lambda>(y, ys). (y, x # ys)) (selections xs)"

fun perms :: "nat \<Rightarrow> 'a list \<Rightarrow> 'a list list" where
  "perms 0 xs = [[]]"
| "perms (Suc n) xs = concat (map (\<lambda>(y, ys). map ((#) y) (perms n ys)) (selections xs))"

definition permutations :: "'a list \<Rightarrow> 'a list list" where
  "permutations xs = perms (length xs) xs"

subsection \<open>BruteForceAlgorithm.compute\<close>

text \<open>The inner \<open>for i in perm\<close> loop, on the state \<open>(current, tot)\<close>.\<close>

fun bf_walk :: "dest list \<Rightarrow> nat list \<Rightarrow> point \<times> real \<Rightarrow> error + (point \<times> real)" where
  "bf_walk points [] (current, tot) = Inr (current, tot)"
| "bf_walk points (i # rest) (current, tot) =
     (case py_index points i of
        Inl e \<Rightarrow> Inl e
      | Inr q \<Rightarrow>
          (let p = coords q
           in case haversine current p of
                Inl e \<Rightarrow> Inl e
              | Inr d \<Rightarrow> bf_walk points rest (p, tot + d)))"

text \<open>The outer \<open>for perm in permutations(...)\<close> loop, on \<open>(best_order, best_distance)\<close>.\<close>

fun bf_loop :: "point \<Rightarrow> dest list \<Rightarrow> nat list list \<Rightarrow> nat list option \<times> real
                \<Rightarrow> error + (nat list option \<times> real)" where
  "bf_loop start points [] (best_order, best_distance) = Inr (best_order, best_distance)"
| "bf_loop start points (perm # rest) (best_order, best_distance) =
     (case bf_walk points perm (start, 0) of
        Inl e \<Rightarrow> Inl e
      | Inr (current, tot) \<Rightarrow>
          (case haversine current start of
             Inl e \<Rightarrow> Inl e
           | Inr d \<Rightarrow>
               if tot + d < best_distance
               then bf_loop start points rest (Some perm, tot + d)
               else bf_loop start points rest (best_order, best_distance)))"

definition BruteForce_compute :: "point \<Rightarrow> dest list \<Rightarrow> error + (nat list \<times> real)" where
  \<comment> \<open>\<open>list(best_order)\<close> raises TypeError when \<open>best_order\<close> is still \<open>None\<close>.\<close>
  "BruteForce_compute start points =
     (case bf_loop start points (permutations [0..<length points]) (None, 10 ^ 9) of
        Inl e \<Rightarrow> Inl e
      | Inr (best_order, best_distance) \<Rightarrow>
          (case best_order of
             None \<Rightarrow> Inl TypeError
           | Some perm \<Rightarrow> Inr (perm, best_distance)))"

subsection \<open>The same functions over the arithmetic of the machine\<close>

text \<open>
  An arithmetic gives the result of each floating-point operation that haversine and the
  solvers perform: \<open>math.radians\<close>, \<open>math.sin\<close>, \<open>math.cos\<close>, \<open>math.sqrt\<close> (on
  an argument that is not negative), \<open>math.atan2\<close>, the four operations on floats, and
  \<open>x ** 2\<close>. Comparisons of floats are exact. \<open>R * 2\<close> is a product of integers.
\<close>

record arith =
  a_radians :: "real \<Rightarrow> real"
  a_sin :: "real \<Rightarrow> real"
  a_cos :: "real \<Rightarrow> real"
  a_sqrt :: "real \<Rightarrow> real"
  a_atan2 :: "real \<Rightarrow> real \<Rightarrow> real"
  a_add :: "real \<Rightarrow> real \<Rightarrow> real"
  a_sub :: "real \<Rightarrow> real \<Rightarrow> real"
  a_mul :: "real \<Rightarrow> real \<Rightarrow> real"
  a_div :: "real \<Rightarrow> real \<Rightarrow> real"
  a_pow2 :: "real \<Rightarrow> real"

definition sqrt_fp :: "arith \<Rightarrow> real \<Rightarrow> error + real" where
  \<comment> \<open>math.sqrt: ValueError on a negative argument, decided on the rounded argument.\<close>
  "sqrt_fp A x = (if x < 0 then Inl ValueError else Inr (a_sqrt A x))"

definition hav_x_fp :: "arith \<Rightarrow> point \<Rightarrow> point \<Rightarrow> real" where
  "hav_x_fp A a b =
     (let lat1 = a_radians A (fst a); lon1 = a_radians A (snd a);
          lat2 = a_radians A (fst b); lon2 = a_radians A (snd b);
          dlat = a_sub A lat2 lat1; dlon = a_sub A lon2 lon1
      in a_add A (a_pow2 A (a_sin A (a_div A dlat 2)))
           (a_mul A (a_mul A (a_cos A lat1) (a_cos A lat2))
              (a_pow2 A (a_sin A (a_div A dlon 2)))))"

definition haversine_fp :: "arith \<Rightarrow> point \<Rightarrow> point \<Rightarrow> error + real" where
  "haversine_fp A a b =
     (let R = 6371; x = hav_x_fp A a b
      in case sqrt_fp A x of
           Inl e \<Rightarrow> Inl e
         | Inr s1 \<Rightarrow>
             (case sqrt_fp A (a_sub A 1 x) of
                Inl e \<Rightarrow> Inl e
              | Inr s2 \<Rightarrow> Inr (a_mul A (R * 2) (a_atan2 A s1 s2))))"

fun nn_scan_fp :: "arith \<Rightarrow> point \<Rightarrow> dest list \<Rightarrow> nat list \<Rightarrow> nat option \<times> real
                   \<Rightarrow> error + (nat option \<times> real)" where
  "nn_scan_fp A current points [] (best, best_d) = Inr (best, best_d)"
| "nn_scan_fp A current points (i # rest) (best, best_d) =
     (case py_index points i of
        Inl e \<Rightarrow> Inl e
      | Inr p \<Rightarrow>
          (case haversine_fp A current (coords p) of
             Inl e \<Rightarrow> Inl e
           | Inr d \<Rightarrow>
               if d < best_d then nn_scan_fp A current points rest (Some i, d)
               else nn_scan_fp A current points rest (best, best_d)))"

function nn_loop_fp :: "arith \<Rightarrow> dest list \<Rightarrow> nat list \<Rightarrow> point \<Rightarrow> nat list \<Rightarrow> real
                        \<Rightarrow> error + (nat list \<times> real \<times> point)" where
  "nn_loop_fp A points unvisited current order tot =
     (if unvisited = [] then Inr (order, tot, current)
      else
        (case nn_scan_fp A current points unvisited (None, 10 ^ 9) of
           Inl e \<Rightarrow> Inl e
         | Inr (best, best_d) \<Rightarrow>
             (case best of
                None \<Rightarrow> Inl TypeError
              | Some b \<Rightarrow>
                  (case py_index points b of
                     Inl e \<Rightarrow> Inl e
                   | Inr p \<Rightarrow>
                       if b \<in> set unvisited
                       then nn_loop_fp A points (remove1 b unvisited) (coords p)
                              (order @ [b]) (a_add A tot best_d)
                       else Inl ValueError))))"
  by pat_completeness auto
termination
  by (relation "measure (\<lambda>(A, points, unvisited, current, order, tot). length unvisited)")
     (auto simp: length_remove1 intro: length_pos_if_in_set)

definition NearestNeighbour_compute_fp :: "arith \<Rightarrow> point \<Rightarrow> dest list
                                           \<Rightarrow> error + (nat list \<times> real)" where
  "NearestNeighbour_compute_fp A start points =
     (case nn_loop_fp A points [0..<length points] start [] 0 of
        Inl e \<Rightarrow> Inl e
      | Inr (order, tot, current) \<Rightarrow>
          (case haversine_fp A current start of
             Inl e \<Rightarrow> Inl e
           | Inr d \<Rightarrow> Inr (order, a_add A tot d)))"

fun bf_walk_fp :: "arith \<Rightarrow> dest list \<Rightarrow> nat list \<Rightarrow> point \<times> real
                   \<Rightarrow> error + (point \<times> real)" where
  "bf_walk_fp A points [] (current, tot) = Inr (current, tot)"
| "bf_walk_fp A points (i # rest) (current, tot) =
     (case py_index points i of
        Inl e \<Rightarrow> Inl e
      | Inr q \<Rightarrow>
          (let p = coords q
           in case haversine_fp A current p of
                Inl e \<Rightarrow> Inl e
              | Inr d \<Rightarrow> bf_walk_fp A points rest (p, a_add A tot d)))"

fun bf_loop_fp :: "arith \<Rightarrow> point \<Rightarrow> dest list \<Rightarrow> nat list list \<Rightarrow> nat list option \<times> real
                   \<Rightarrow> error + (nat list option \<times> real)" where
  "bf_loop_fp A start points [] (best_order, best_distance) = Inr (best_order, best_distance)"
| "bf_loop_fp A start points (perm # rest) (best_order, best_distance) =
     (case bf_walk_fp A points perm (start, 0) of
        Inl e \<Rightarrow> Inl e
      | Inr (current, tot) \<Rightarrow>
          (case haversine_fp A current start of
             Inl e \<Rightarrow> Inl e
           | Inr d \<Rightarrow>
               if a_add A tot d < best_distance
               then bf_loop_fp A start points rest (Some perm, a_add A tot d)
               else bf_loop_fp A start points rest (best_order, best_distance)))"

definition BruteForce_compute_fp :: "arith \<Rightarrow> point \<Rightarrow> dest list
                                     \<Rightarrow> error + (nat list \<times> real)" where
  "BruteForce_compute_fp A start points =
     (case bf_loop_fp A start points (permutations [0..<length points]) (None, 10 ^ 9) of
        Inl e \<Rightarrow> Inl e
      | Inr (best_order, best_distance) \<Rightarrow>
          (case best_order of
             None \<Rightarrow> Inl TypeError
           | Some perm \<Rightarrow> Inr (perm, best_distance)))"


text \<open>
  The values of IEEE double arithmetic, as CPython's \<open>math\<close> module and float
  operations give them, on the operations that haversine performs at \<open>a = (8, 0)\<close>,
  \<open>b = (-8, 180)\<close>, each written as the fraction it is exactly; every other operation
  on this path is exact on doubles, and is the exact operation here.
\<close>

definition doubles_at_8 :: arith where
  "doubles_at_8 =
     \<lparr>a_radians = (\<lambda>d. if d = 8 then 5030569068109113 / 36028797018963968
                         else if d = - 8 then - (5030569068109113 / 36028797018963968)
                         else if d = 180 then 884279719003555 / 281474976710656
                         else radians d),
      a_sin = (\<lambda>t. if t = - (5030569068109113 / 36028797018963968)
                     then - (5014239404989977 / 36028797018963968)
                     else if t = 884279719003555 / 562949953421312 then 1
                     else sin t),
      a_cos = (\<lambda>t. if t = 5030569068109113 / 36028797018963968
                        \<or> t = - (5030569068109113 / 36028797018963968)
                     then 4459770905381437 / 4503599627370496
                     else cos t),
      a_sqrt = sqrt,
      a_atan2 = atan2,
      a_add = (\<lambda>u v. if u = 1395694493897217 / 72057594037927936
                          \<and> v = 8832737443003841 / 9007199254740992
                       then 4503599627370497 / 4503599627370496
                       else u + v),
      a_sub = (-),
      a_mul = (\<lambda>u v. if u = 4459770905381437 / 4503599627370496
                          \<and> v = 4459770905381437 / 4503599627370496
                       then 8832737443003841 / 9007199254740992
                       else u * v),
      a_div = (/),
      a_pow2 = (\<lambda>s. if s = - (5014239404989977 / 36028797018963968)
                      then 1395694493897217 / 72057594037927936
                      else s\<^sup>2)\<rparr>"

subsection \<open>App.compute, up to the two solver calls\<close>

text \<open>
  The caller of the solvers reads the start query and the destination queries from its
  widgets, checks them, geocodes them and runs both solvers. The geocoder is a web service:
  it is a parameter here, answering \<open>None\<close> where \<open>geocode_postcode\<close> returns a
  tuple that starts with \<open>None\<close>. \<open>messagebox.showerror(title, message)\<close> followed by
  \<open>return\<close> is the outcome \<open>ShowError title message\<close>; an exception that leaves a
  solver is \<open>Raised\<close>. The labels, the text box and the drawing that follow are left out.
\<close>

datatype outcome =
    ShowError string string
  | Raised error
  | Computed "nat list \<times> real" "nat list \<times> real"

fun geocode_all :: "(string \<Rightarrow> dest option) \<Rightarrow> string list \<Rightarrow> dest list \<Rightarrow> string + dest list" where
  \<comment> \<open>The loop \<open>for d in dests\<close>, on the list \<open>self.points\<close>; \<open>Inl d\<close> is the query
      that failed.\<close>
  "geocode_all geocode [] points = Inr points"
| "geocode_all geocode (d # dests) points =
     (case geocode d of
        None \<Rightarrow> Inl d
      | Some g \<Rightarrow> geocode_all geocode dests (points @ [g]))"

definition App_compute :: "(string \<Rightarrow> dest option) \<Rightarrow> string \<Rightarrow> string list \<Rightarrow> outcome" where
  "App_compute geocode start_q dests =
     (if start_q = [] then ShowError ''Missing'' ''Start address required''
      else if dests = [] then ShowError ''Missing'' ''Need at least one destination''
      else
        (case geocode start_q of
           None \<Rightarrow> ShowError ''Error'' ''Failed geocoding start''
         | Some start_geo \<Rightarrow>
             (let start_loc = (fst start_geo, fst (snd start_geo))
              in case geocode_all geocode dests [] of
                   Inl d \<Rightarrow> ShowError ''Error'' (''Failed geocoding '' @ d)
                 | Inr points \<Rightarrow>
                     (case NearestNeighbour_compute start_loc points of
                        Inl e \<Rightarrow> Raised e
                      | Inr nn \<Rightarrow>
                          (case BruteForce_compute start_loc points of
                             Inl e \<Rightarrow> Raised e
                           | Inr bf \<Rightarrow> Computed nn bf)))))"

subsection \<open>Quantities the properties are stated with\<close>

definition dist_km :: "point \<Rightarrow> point \<Rightarrow> real" where
  \<comment> \<open>The number haversine returns when neither square root raises.\<close>
  "dist_km a b = 6371 * 2 * atan2 (sqrt (hav_x a b)) (sqrt (1 - hav_x a b))"

fun round_trip_from :: "point \<Rightarrow> point \<Rightarrow> dest list \<Rightarrow> nat list \<Rightarrow> real" where
  \<comment> \<open>From \<open>current\<close> through the destinations of \<open>order\<close>, then back to \<open>start\<close>.\<close>
  "round_trip_from start current points [] = dist_km current start"
| "round_trip_from start current points (i # rest) =
     dist_km current (coords (points ! i))
       + round_trip_from start (coords (points ! i)) points rest"

definition round_trip :: "point \<Rightarrow> dest list \<Rightarrow> nat list \<Rightarrow> real" where
  \<comment> \<open>Start to first point, each consecutive leg, last point back to start.\<close>
  "round_trip start points order = round_trip_from start start points order"

definition is_permutation :: "nat \<Rightarrow> nat list \<Rightarrow> bool" where
  \<comment> \<open>\<open>order\<close> is a permutation of the indices \<open>0, ..., N - 1\<close>.\<close>
  "is_permutation N order \<longleftrightarrow> length order = N \<and> distinct order \<and> set order = {0..<N}"

fun lex_less :: "nat list \<Rightarrow> nat list \<Rightarrow> bool" where
  \<comment> \<open>\<open>p\<close> comes strictly before \<open>q\<close> in the lexicographic order of index sequences.\<close>
  "lex_less [] q \<longleftrightarrow> q \<noteq> []"
| "lex_less (x # p) [] \<longleftrightarrow> False"
| "lex_less (x # p) (y # q) \<longleftrightarrow> x < y \<or> (x = y \<and> lex_less p q)"

fun first_min :: "('a \<Rightarrow> real) \<Rightarrow> 'a list \<Rightarrow> 'a option \<times> real \<Rightarrow> 'a option \<times> real" where
  \<comment> \<open>The scan both solvers run: keep an element when its value is strictly below the
      best value so far.\<close>
  "first_min f [] (best, best_d) = (best, best_d)"
| "first_min f (x # xs) (best, best_d) =
     (if f x < best_d then first_min f xs (Some x, f x) else first_min f xs (best, best_d))"



text \<open>
  The same quantities over an arithmetic: the running total of a round trip, as both
  solvers accumulate it, and the nearest-neighbour construction on the distances that
  haversine returns.
\<close>

fun round_trip_from_fp :: "arith \<Rightarrow> point \<Rightarrow> point \<Rightarrow> real \<Rightarrow> dest list \<Rightarrow> nat list
                           \<Rightarrow> error + real" where
  "round_trip_from_fp A start current tot points [] =
     (case haversine_fp A current start of
        Inl e \<Rightarrow> Inl e
      | Inr d \<Rightarrow> Inr (a_add A tot d))"
| "round_trip_from_fp A start current tot points (i # rest) =
     (case haversine_fp A current (coords (points ! i)) of
        Inl e \<Rightarrow> Inl e
      | Inr d \<Rightarrow> round_trip_from_fp A start (coords (points ! i)) (a_add A tot d) points rest)"

definition round_trip_fp :: "arith \<Rightarrow> point \<Rightarrow> dest list \<Rightarrow> nat list \<Rightarrow> error + real" where
  \<comment> \<open>Start to first point, each consecutive leg, last point back to start, added to a
      running total that starts at 0; an error where a leg raises.\<close>
  "round_trip_fp A start points order = round_trip_from_fp A start start 0 points order"

definition is_nearest_fp :: "arith \<Rightarrow> point \<Rightarrow> dest list \<Rightarrow> nat set \<Rightarrow> nat \<Rightarrow> bool" where
  \<comment> \<open>\<open>i\<close> is the unvisited index whose distance from \<open>current\<close>, as haversine returns
      it, is minimal, the lowest such index.\<close>
  "is_nearest_fp A current points U i \<longleftrightarrow>
     i \<in> U \<and>
     (\<exists>d. haversine_fp A current (coords (points ! i)) = Inr d \<and>
          (\<forall>j\<in>U. \<exists>dj. haversine_fp A current (coords (points ! j)) = Inr dj \<and>
                        d \<le> dj \<and> (dj = d \<longrightarrow> i \<le> j)))"

fun greedy_order_fp :: "arith \<Rightarrow> point \<Rightarrow> dest list \<Rightarrow> nat set \<Rightarrow> nat list \<Rightarrow> bool" where
  "greedy_order_fp A current points U [] \<longleftrightarrow> U = {}"
| "greedy_order_fp A current points U (i # rest) \<longleftrightarrow>
     is_nearest_fp A current points U i \<and>
     greedy_order_fp A (coords (points ! i)) points (U - {i}) rest"

definition leg :: "arith \<Rightarrow> point \<Rightarrow> point \<Rightarrow> real" where
  \<comment> \<open>The distance haversine returns; 0 where it raises. Used in the proofs only.\<close>
  "leg A a b = (case haversine_fp A a b of Inl e \<Rightarrow> 0 | Inr d \<Rightarrow> d)"

definition trip :: "arith \<Rightarrow> point \<Rightarrow> dest list \<Rightarrow> nat list \<Rightarrow> real" where
  \<comment> \<open>The round-trip total of an order; 0 where a leg raises. Used in the proofs only.\<close>
  "trip A start points order =
     (case round_trip_fp A start points order of Inl e \<Rightarrow> 0 | Inr t \<Rightarrow> t)"

section \<open>The distance model\<close>

lemma hav_x_cos_form:
  "hav_x a b = (1 - (sin (radians (fst a)) * sin (radians (fst b))
       + cos (radians (fst a)) * cos (radians (fst b)) * cos (radians (snd b) - radians (snd a)))) / 2"
proof -
  have s2: "(sin (t / 2))\<^sup>2 = (1 - cos t) / 2" for t :: real
    using cos_double_sin[of "t/2"] by simp
  have "(1 - cos (p2 - p1)) / 2 + cos p1 * cos p2 * ((1 - cos dl) / 2)
        = (1 - (sin p1 * sin p2 + cos p1 * cos p2 * cos dl)) / 2" for p1 p2 dl :: real
    unfolding cos_diff by (simp add: field_simps)
  then show ?thesis
    unfolding hav_x_def Let_def s2 by simp
qed

lemma sc_bound:
  fixes a b c :: real
  assumes "\<bar>c\<bar> \<le> 1"
  shows "\<bar>sin a * sin b + cos a * cos b * c\<bar> \<le> 1"
proof -
  have "\<bar>sin a * sin b + cos a * cos b * c\<bar> \<le> \<bar>sin a * sin b\<bar> + \<bar>cos a * cos b\<bar> * \<bar>c\<bar>"
    by (metis abs_mult abs_triangle_ineq)
  also have "\<dots> \<le> \<bar>sin a * sin b\<bar> + \<bar>cos a * cos b\<bar>"
    using assms by (simp add: mult_left_le)
  also have "\<dots> \<le> 1"
  proof -
    have "2 * \<bar>sin a\<bar> * \<bar>sin b\<bar> \<le> (sin a)\<^sup>2 + (sin b)\<^sup>2"
      using sum_squares_bound[of "\<bar>sin a\<bar>" "\<bar>sin b\<bar>"] by simp
    moreover have "2 * \<bar>cos a\<bar> * \<bar>cos b\<bar> \<le> (cos a)\<^sup>2 + (cos b)\<^sup>2"
      using sum_squares_bound[of "\<bar>cos a\<bar>" "\<bar>cos b\<bar>"] by simp
    moreover have "(sin a)\<^sup>2 + (cos a)\<^sup>2 = 1" "(sin b)\<^sup>2 + (cos b)\<^sup>2 = 1" by simp_all
    ultimately show ?thesis unfolding abs_mult by linarith
  qed
  finally show ?thesis .
qed

lemma hav_x_range: "0 \<le> hav_x a b \<and> hav_x a b \<le> 1"
proof -
  let ?c = "sin (radians (fst a)) * sin (radians (fst b))
       + cos (radians (fst a)) * cos (radians (fst b)) * cos (radians (snd b) - radians (snd a))"
  have "\<bar>?c\<bar> \<le> 1" by (rule sc_bound) simp
  then show ?thesis unfolding hav_x_cos_form by (simp add: abs_le_iff)
qed

lemma haversine_eq: "haversine a b = Inr (dist_km a b)"
  using hav_x_range[of a b] by (simp add: haversine_def py_sqrt_def dist_km_def Let_def)

lemma atan2_nonneg_bounds:
  assumes "0 \<le> y" "0 \<le> x"
  shows "0 \<le> atan2 y x \<and> atan2 y x \<le> pi / 2"
  using assms arctan_ubound[of "y / x"] 
  by (auto simp: atan2_def less_eq_real_def)

lemma dist_km_bounds: "0 \<le> dist_km a b \<and> dist_km a b \<le> 6371 * pi"
  using hav_x_range[of a b] atan2_nonneg_bounds[of "sqrt (hav_x a b)" "sqrt (1 - hav_x a b)"]
  by (simp add: dist_km_def)

lemma hav_x_sym: "hav_x a b = hav_x b a"
  unfolding hav_x_cos_form by (simp add: mult.commute cos_diff)

lemma dist_km_sym: "dist_km a b = dist_km b a"
  by (simp add: dist_km_def hav_x_sym[of a b])

lemma hav_x_self: "hav_x a a = 0"
  by (simp add: hav_x_def)

lemma dist_km_self: "dist_km a a = 0"
  by (simp add: dist_km_def hav_x_self atan2_def)

section \<open>The heuristic solver\<close>


lemma first_min_post:
  "\<exists>best' bd'. first_min f js (best, bd) = (best', bd') \<and>
           (if \<exists>i\<in>set js. f i < bd
            then \<exists>pre b post. js = pre @ b # post \<and> best' = Some b \<and>
                   bd' = f b \<and> bd' < bd \<and>
                   (\<forall>j\<in>set pre. bd' < f j) \<and>
                   (\<forall>j\<in>set post. bd' \<le> f j)
            else best' = best \<and> bd' = bd)"
proof (induction js arbitrary: best bd)
  case Nil
  then show ?case by simp
next
  case (Cons i rest)
  let ?D = f
  show ?case
  proof (cases "?D i < bd")
    case True
    from Cons.IH[of "Some i" "?D i"] obtain best' bd' where
      run: "first_min f rest (Some i, ?D i) = (best', bd')" and
      post: "if \<exists>j\<in>set rest. ?D j < ?D i
            then \<exists>pre b post. rest = pre @ b # post \<and> best' = Some b \<and>
                   bd' = ?D b \<and> bd' < ?D i \<and>
                   (\<forall>j\<in>set pre. bd' < ?D j) \<and> (\<forall>j\<in>set post. bd' \<le> ?D j)
            else best' = Some i \<and> bd' = ?D i"
      by blast
    have step: "first_min f (i # rest) (best, bd) = (best', bd')"
      using True run by simp
    show ?thesis
    proof (cases "\<exists>j\<in>set rest. ?D j < ?D i")
      case True
      with post obtain pre b post where
        p: "rest = pre @ b # post" "best' = Some b" "bd' = ?D b" "bd' < ?D i"
           "\<forall>j\<in>set pre. bd' < ?D j" "\<forall>j\<in>set post. bd' \<le> ?D j"
        by auto
      have "i # rest = (i # pre) @ b # post" using p(1) by simp
      moreover have "\<forall>j\<in>set (i # pre). bd' < ?D j" using p(4,5) by simp
      moreover have "bd' < bd" using p(4) \<open>?D i < bd\<close> by simp
      ultimately have "\<exists>pre b post. i # rest = pre @ b # post \<and> best' = Some b \<and>
                   bd' = ?D b \<and> bd' < bd \<and>
                   (\<forall>j\<in>set pre. bd' < ?D j) \<and> (\<forall>j\<in>set post. bd' \<le> ?D j)"
        using p(2,3,6) by blast
      moreover have "\<exists>j\<in>set (i # rest). ?D j < bd" using \<open>?D i < bd\<close> by simp
      ultimately show ?thesis using step by simp
    next
      case False
      with post have p: "best' = Some i" "bd' = ?D i" by auto
      have "i # rest = [] @ i # rest" by simp
      moreover have "\<forall>j\<in>set rest. bd' \<le> ?D j" using False p(2) by (simp add: not_less)
      ultimately have "\<exists>pre b post. i # rest = pre @ b # post \<and> best' = Some b \<and>
                   bd' = ?D b \<and> bd' < bd \<and>
                   (\<forall>j\<in>set pre. bd' < ?D j) \<and> (\<forall>j\<in>set post. bd' \<le> ?D j)"
        using p \<open>?D i < bd\<close> by (metis empty_iff list.set(1))
      moreover have "\<exists>j\<in>set (i # rest). ?D j < bd" using \<open>?D i < bd\<close> by simp
      ultimately show ?thesis using step by simp
    qed
  next
    case False
    from Cons.IH[of best bd] obtain best' bd' where
      run: "first_min f rest (best, bd) = (best', bd')" and
      post: "if \<exists>j\<in>set rest. ?D j < bd
            then \<exists>pre b post. rest = pre @ b # post \<and> best' = Some b \<and>
                   bd' = ?D b \<and> bd' < bd \<and>
                   (\<forall>j\<in>set pre. bd' < ?D j) \<and> (\<forall>j\<in>set post. bd' \<le> ?D j)
            else best' = best \<and> bd' = bd"
      by blast
    have step: "first_min f (i # rest) (best, bd) = (best', bd')"
      using False run by simp
    show ?thesis
    proof (cases "\<exists>j\<in>set rest. ?D j < bd")
      case True
      with post obtain pre b post where
        p: "rest = pre @ b # post" "best' = Some b" "bd' = ?D b" "bd' < bd"
           "\<forall>j\<in>set pre. bd' < ?D j" "\<forall>j\<in>set post. bd' \<le> ?D j"
        by auto
      have "i # rest = (i # pre) @ b # post" using p(1) by simp
      moreover have "\<forall>j\<in>set (i # pre). bd' < ?D j" using p(4,5) False by simp
      ultimately have "\<exists>pre b post. i # rest = pre @ b # post \<and> best' = Some b \<and>
                   bd' = ?D b \<and> bd' < bd \<and>
                   (\<forall>j\<in>set pre. bd' < ?D j) \<and> (\<forall>j\<in>set post. bd' \<le> ?D j)"
        using p(2,3,4,6) by blast
      moreover have "\<exists>j\<in>set (i # rest). ?D j < bd" using True by simp
      ultimately show ?thesis using step by simp
    next
      case F2: False
      with post have p: "best' = best" "bd' = bd" by auto
      have "\<not> (\<exists>j\<in>set (i # rest). ?D j < bd)" using False F2 by simp
      then show ?thesis using step p by simp
    qed
  qed
qed








section \<open>The enumeration of permutations\<close>

lemma set_perms_Suc:
  "p \<in> set (perms (Suc n) xs) \<longleftrightarrow>
     (\<exists>y ys p'. (y, ys) \<in> set (selections xs) \<and> p' \<in> set (perms n ys) \<and> p = y # p')"
  by (auto simp: image_iff)

lemma sel_cons: "(y, ys) \<in> set (selections (x # xs)) \<longleftrightarrow>
    (y = x \<and> ys = xs) \<or> (\<exists>zs. (y, zs) \<in> set (selections xs) \<and> ys = x # zs)"
  by (auto simp: image_iff)

lemma set_selections:
  "(y, ys) \<in> set (selections xs) \<longleftrightarrow> (\<exists>pre post. xs = pre @ y # post \<and> ys = pre @ post)"
proof (induction xs arbitrary: y ys)
  case Nil
  then show ?case by simp
next
  case (Cons x xs)
  show ?case
  proof
    assume "(y, ys) \<in> set (selections (x # xs))"
    then consider "y = x" "ys = xs" | zs where "(y, zs) \<in> set (selections xs)" "ys = x # zs"
      unfolding sel_cons by blast
    then show "\<exists>pre post. x # xs = pre @ y # post \<and> ys = pre @ post"
    proof cases
      case 1
      then have "x # xs = [] @ y # xs \<and> ys = [] @ xs" by simp
      then show ?thesis by blast
    next
      case 2
      with Cons.IH obtain pre post where "xs = pre @ y # post" "zs = pre @ post" by blast
      then have "x # xs = (x # pre) @ y # post \<and> ys = (x # pre) @ post" using 2(2) by simp
      then show ?thesis by blast
    qed
  next
    assume "\<exists>pre post. x # xs = pre @ y # post \<and> ys = pre @ post"
    then obtain pre post where p: "x # xs = pre @ y # post" "ys = pre @ post" by blast
    show "(y, ys) \<in> set (selections (x # xs))"
    proof (cases pre)
      case Nil
      then show ?thesis using p unfolding sel_cons by simp
    next
      case (Cons a pre')
      then have "xs = pre' @ y # post" "ys = x # (pre' @ post)" "a = x" using p by simp_all
      then have "(y, pre' @ post) \<in> set (selections xs)" using Cons.IH by blast
      then show ?thesis using \<open>ys = x # (pre' @ post)\<close> unfolding sel_cons by blast
    qed
  qed
qed

lemma map_fst_selections: "map fst (selections xs) = xs"
  by (induction xs) (auto simp: comp_def case_prod_beta)


lemma perms_sound:
  assumes "p \<in> set (perms n xs)" "length xs = n" "distinct xs"
  shows "distinct p \<and> set p = set xs \<and> length p = n"
  using assms
proof (induction n arbitrary: p xs)
  case 0
  then show ?case by simp
next
  case (Suc n)
  from Suc.prems(1) obtain y ys p' where
    sel: "(y, ys) \<in> set (selections xs)" and p': "p' \<in> set (perms n ys)" and p: "p = y # p'"
    unfolding set_perms_Suc by blast
  from sel obtain pre post where xs: "xs = pre @ y # post" and ys: "ys = pre @ post"
    unfolding set_selections by blast
  have "length ys = n" "distinct ys" using Suc.prems(2,3) unfolding xs ys by simp_all
  from Suc.IH[OF p' this] have "distinct p'" "set p' = set ys" "length p' = n" by simp_all
  moreover have "y \<notin> set ys" "set xs = insert y (set ys)"
    using Suc.prems(3) unfolding xs ys by simp_all
  ultimately show ?case using p by simp
qed

lemma perms_complete:
  assumes "distinct p" "set p = set xs" "length xs = n" "distinct xs"
  shows "p \<in> set (perms n xs)"
  using assms
proof (induction n arbitrary: p xs)
  case 0
  then show ?case by simp
next
  case (Suc n)
  from Suc.prems(2,3) obtain y p' where p: "p = y # p'" by (cases p) auto
  then have "y \<in> set xs" using Suc.prems(2) by auto
  then obtain pre post where xs: "xs = pre @ y # post" by (meson split_list)
  let ?ys = "pre @ post"
  have sel: "(y, ?ys) \<in> set (selections xs)" unfolding set_selections using xs by blast
  have a: "y \<notin> set ?ys" and b: "set xs = insert y (set ?ys)"
    using Suc.prems(4) unfolding xs by simp_all
  have c: "y \<notin> set p'" and d: "set p = insert y (set p')"
    using Suc.prems(1) unfolding p by simp_all
  have "insert y (set p') = insert y (set ?ys)" using Suc.prems(2) b d by simp
  then have "set p' = set ?ys" using a c by (metis insert_ident)
  moreover have "distinct p'" "length ?ys = n" "distinct ?ys"
    using Suc.prems(1,3,4) unfolding p xs by simp_all
  ultimately have "p' \<in> set (perms n ?ys)" using Suc.IH by blast
  then show ?case using sel p unfolding set_perms_Suc by blast
qed

lemma set_permutations_upt:
  "set (permutations [0..<N]) = {p. is_permutation N p}"
proof (intro set_eqI iffI)
  fix p assume "p \<in> set (permutations [0..<N])"
  then show "p \<in> {p. is_permutation N p}"
    using perms_sound[of p N "[0..<N]"] by (simp add: permutations_def is_permutation_def)
next
  fix p assume "p \<in> {p. is_permutation N p}"
  then show "p \<in> set (permutations [0..<N])"
    using perms_complete[of p "[0..<N]" N] by (simp add: permutations_def is_permutation_def)
qed

lemma lex_groups_sorted:
  assumes "sorted_wrt (<) (map fst S)"
    and "\<forall>(y, ys)\<in>set S. sorted_wrt lex_less (perms n ys)"
  shows "sorted_wrt lex_less (concat (map (\<lambda>(y :: nat, ys). map ((#) y) (perms n ys)) S))"
  using assms
proof (induction S)
  case Nil
  then show ?case by simp
next
  case (Cons a S)
  obtain y ys where a: "a = (y, ys)" by (cases a)
  have head: "sorted_wrt lex_less (map ((#) y) (perms n ys))"
    using Cons.prems(2) a by (simp add: sorted_wrt_map)
  have tail: "sorted_wrt lex_less (concat (map (\<lambda>(y, ys). map ((#) y) (perms n ys)) S))"
    using Cons by simp
  have cross: "lex_less p q"
    if "p \<in> set (map ((#) y) (perms n ys))"
      and "q \<in> set (concat (map (\<lambda>(y, ys). map ((#) y) (perms n ys)) S))" for p q
  proof -
    from that(1) obtain p' where p: "p = y # p'" by auto
    from that(2) obtain z zs q' where zs: "(z, zs) \<in> set S" and q: "q = z # q'" by auto
    have "y < z" using Cons.prems(1) a zs by force
    then show ?thesis using p q by simp
  qed
  show ?case using head tail cross a by (simp add: sorted_wrt_append)
qed

lemma selections_sorted:
  assumes "(y, ys) \<in> set (selections xs)" "sorted_wrt (<) (xs :: nat list)"
  shows "sorted_wrt (<) ys"
proof -
  from assms(1) obtain pre post where "xs = pre @ y # post" "ys = pre @ post"
    unfolding set_selections by blast
  then show ?thesis using assms(2) by (auto simp: sorted_wrt_append)
qed

lemma perms_lex_sorted:
  assumes "sorted_wrt (<) (xs :: nat list)"
  shows "sorted_wrt lex_less (perms n xs)"
  using assms
proof (induction n arbitrary: xs)
  case 0
  then show ?case by simp
next
  case (Suc n)
  have "sorted_wrt (<) (map fst (selections xs))"
    using Suc.prems by (simp add: map_fst_selections)
  moreover have "\<forall>(y, ys)\<in>set (selections xs). sorted_wrt lex_less (perms n ys)"
    using Suc.IH selections_sorted[OF _ Suc.prems] by blast
  ultimately show ?case using lex_groups_sorted by simp
qed

lemma permutations_lex_sorted: "sorted_wrt lex_less (permutations [0..<N])"
  by (simp add: permutations_def perms_lex_sorted)

section \<open>The exact solver\<close>



lemma round_trip_from_bounds:
  "0 \<le> round_trip_from start current points perm \<and>
   round_trip_from start current points perm \<le> (real (length perm) + 1) * (6371 * pi)"
proof (induction perm arbitrary: current)
  case Nil
  then show ?case using dist_km_bounds[of current start] by simp
next
  case (Cons i rest)
  have "0 \<le> round_trip_from start (coords (points ! i)) points rest"
       "round_trip_from start (coords (points ! i)) points rest
          \<le> (real (length rest) + 1) * (6371 * pi)"
    using Cons.IH by simp_all
  then show ?case
    using dist_km_bounds[of current "coords (points ! i)"] by (simp add: algebra_simps)
qed



section \<open>Bounds on round trips and the smallest requests\<close>



lemma round_trip_nonneg: "0 \<le> round_trip start points perm"
  using round_trip_from_bounds[of start start points perm] by (simp add: round_trip_def)

lemma is_permutation_0: "is_permutation 0 p \<longleftrightarrow> p = []"
  by (auto simp: is_permutation_def)




lemma nn_empty: "NearestNeighbour_compute start [] = Inr ([], 0)"
  by (simp add: NearestNeighbour_compute_def haversine_eq dist_km_self)

lemma bf_empty: "BruteForce_compute start [] = Inr ([], 0)"
  by (simp add: BruteForce_compute_def permutations_def haversine_eq dist_km_self)

section \<open>The heuristic solver over any arithmetic\<close>

lemma haversine_fp_error: "haversine_fp A a b = Inl e \<Longrightarrow> e = ValueError"
  by (auto simp: haversine_fp_def sqrt_fp_def Let_def split: if_splits)


lemma haversine_fp_cases:
  obtains d where "haversine_fp A a b = Inr d" "leg A a b = d"
  | "haversine_fp A a b = Inl ValueError"
proof (cases "haversine_fp A a b")
  case (Inl e)
  then show ?thesis using haversine_fp_error that(2) by blast
next
  case (Inr d)
  then show ?thesis using that(1) by (simp add: leg_def)
qed

lemma nn_scan_fp_char:
  assumes "\<forall>i\<in>set js. i < length points"
  shows "nn_scan_fp A current points js st =
           (if \<forall>j\<in>set js. \<exists>d. haversine_fp A current (coords (points ! j)) = Inr d
            then Inr (first_min (\<lambda>j. leg A current (coords (points ! j))) js st)
            else Inl ValueError)"
  using assms
proof (induction js arbitrary: st)
  case Nil
  then show ?case by (cases st) simp
next
  case (Cons i rest)
  obtain best bd where st: "st = (best, bd)" by (cases st)
  have i: "py_index points i = Inr (points ! i)" using Cons.prems by (simp add: py_index_def)
  have ih: "\<And>st. nn_scan_fp A current points rest st =
           (if \<forall>j\<in>set rest. \<exists>d. haversine_fp A current (coords (points ! j)) = Inr d
            then Inr (first_min (\<lambda>j. leg A current (coords (points ! j))) rest st)
            else Inl ValueError)"
    using Cons by simp
  show ?case
  proof (cases rule: haversine_fp_cases[of A current "coords (points ! i)"])
    case (1 d)
    then show ?thesis unfolding st by (auto simp: i ih)
  next
    case 2
    then show ?thesis unfolding st by (simp add: i)
  qed
qed

lemma nn_scan_fp_nearest:
  assumes "sorted_wrt (<) js" "\<forall>i\<in>set js. i < length points"
    and "nn_scan_fp A current points js (None, 10 ^ 9) = Inr (Some b, bd)"
  shows "is_nearest_fp A current points (set js) b \<and>
         haversine_fp A current (coords (points ! b)) = Inr bd"
proof -
  let ?D = "\<lambda>j. leg A current (coords (points ! j))"
  have ok: "\<forall>j\<in>set js. \<exists>d. haversine_fp A current (coords (points ! j)) = Inr d"
    and fm: "first_min ?D js (None, 10 ^ 9) = (Some b, bd)"
    using assms(3) unfolding nn_scan_fp_char[OF assms(2)] by (auto split: if_splits)
  have val: "haversine_fp A current (coords (points ! j)) = Inr (?D j)" if "j \<in> set js" for j
    using ok that by (auto simp: leg_def)
  from first_min_post[of ?D js None "10 ^ 9"] fm
  obtain pre post where
    p: "js = pre @ b # post" "bd = ?D b"
       "\<forall>j\<in>set pre. bd < ?D j" "\<forall>j\<in>set post. bd \<le> ?D j"
    by (auto split: if_splits)
  have after: "\<forall>j\<in>set post. b < j"
    using assms(1) p(1) by (simp add: sorted_wrt_append)
  have bin: "b \<in> set js" using p(1) by simp
  have all: "\<exists>dj. haversine_fp A current (coords (points ! j)) = Inr dj \<and>
                  bd \<le> dj \<and> (dj = bd \<longrightarrow> b \<le> j)" if "j \<in> set js" for j
  proof -
    from that p(1) have "j \<in> set pre \<or> j = b \<or> j \<in> set post" by auto
    then have "bd \<le> ?D j \<and> (?D j = bd \<longrightarrow> b \<le> j)"
      using p(2,3,4) after by auto
    then show ?thesis using val[OF that] by blast
  qed
  have "haversine_fp A current (coords (points ! b)) = Inr bd"
    using val[OF bin] p(2) by simp
  then show ?thesis using bin all unfolding is_nearest_fp_def by blast
qed

lemma nn_loop_fp_post:
  assumes "sorted_wrt (<) unvisited" "\<forall>i\<in>set unvisited. i < length points"
    and "nn_loop_fp A points unvisited current order tot = Inr (order', tot', cur')"
  shows "\<exists>rest. order' = order @ rest \<and>
           greedy_order_fp A current points (set unvisited) rest \<and>
           distinct rest \<and> set rest = set unvisited \<and>
           round_trip_from_fp A start current tot points rest
             = round_trip_from_fp A start cur' tot' points []"
  using assms
proof (induction A points unvisited current order tot rule: nn_loop_fp.induct)
  case (1 A points unvisited current order tot)
  show ?case
  proof (cases "unvisited = []")
    case True
    then show ?thesis using "1.prems"(3) by simp
  next
    case False
    from "1.prems"(3) False obtain best bd where
      scan: "nn_scan_fp A current points unvisited (None, 10 ^ 9) = Inr (best, bd)"
      by (subst (asm) nn_loop_fp.simps) (auto split: sum.splits)
    from "1.prems"(3) False scan obtain b where b: "best = Some b"
      by (subst (asm) nn_loop_fp.simps) (auto split: option.splits)
    from "1.prems"(3) False scan b obtain p where idx: "py_index points b = Inr p"
      by (subst (asm) nn_loop_fp.simps) (auto split: sum.splits)
    from "1.prems"(3) False scan b idx have bin: "b \<in> set unvisited"
      by (subst (asm) nn_loop_fp.simps) (auto split: if_splits)
    have pb: "p = points ! b" using idx by (auto simp: py_index_def split: if_splits)
    have rec: "nn_loop_fp A points (remove1 b unvisited) (coords p) (order @ [b])
                 (a_add A tot bd) = Inr (order', tot', cur')"
      using "1.prems"(3) False scan b idx bin by (subst (asm) nn_loop_fp.simps) simp
    from nn_scan_fp_nearest[OF "1.prems"(1,2) scan[unfolded b]]
    have near: "is_nearest_fp A current points (set unvisited) b"
      and hb: "haversine_fp A current (coords (points ! b)) = Inr bd"
      by simp_all
    have dist: "distinct unvisited" using "1.prems"(1) strict_sorted_iff by blast
    have s': "sorted_wrt (<) (remove1 b unvisited)"
      using "1.prems"(1) by (simp add: strict_sorted_iff sorted_remove1)
    have set': "set (remove1 b unvisited) = set unvisited - {b}"
      using dist by simp
    have r': "\<forall>i\<in>set (remove1 b unvisited). i < length points"
      using "1.prems"(2) set' by simp
    from "1.IH"[OF False scan refl b idx bin s' r' rec] obtain rest where
      ih: "order' = (order @ [b]) @ rest"
          "greedy_order_fp A (coords p) points (set (remove1 b unvisited)) rest"
          "distinct rest" "set rest = set (remove1 b unvisited)"
          "round_trip_from_fp A start (coords p) (a_add A tot bd) points rest
             = round_trip_from_fp A start cur' tot' points []"
      by blast
    have "order' = order @ (b # rest)" using ih(1) by simp
    moreover have "greedy_order_fp A current points (set unvisited) (b # rest)"
      using near ih(2) set' pb by simp
    moreover have "distinct (b # rest)" using ih(3,4) set' by simp
    moreover have "set (b # rest) = set unvisited" using ih(4) set' bin by auto
    moreover have "round_trip_from_fp A start current tot points (b # rest)
                     = round_trip_from_fp A start cur' tot' points []"
      using hb ih(5) pb by simp
    ultimately show ?thesis by blast
  qed
qed

lemma nn_compute_fp_post:
  assumes "NearestNeighbour_compute_fp A start points = Inr (order, tot)"
  shows "is_permutation (length points) order \<and>
         greedy_order_fp A start points {0..<length points} order \<and>
         round_trip_fp A start points order = Inr tot"
proof -
  from assms obtain tot' cur' where
    loop: "nn_loop_fp A points [0..<length points] start [] 0 = Inr (order, tot', cur')"
    and fin: "round_trip_from_fp A start cur' tot' points [] = Inr tot"
    by (auto simp: NearestNeighbour_compute_fp_def split: sum.splits)
  have s: "sorted_wrt (<) [0..<length points]" by simp
  have r: "\<forall>i\<in>set [0..<length points]. i < length points" by simp
  from nn_loop_fp_post[OF s r loop, of start] have
    p: "greedy_order_fp A start points (set [0..<length points]) order"
       "distinct order" "set order = set [0..<length points]"
       "round_trip_from_fp A start start 0 points order
          = round_trip_from_fp A start cur' tot' points []"
    by auto
  have "length order = length points"
    using p(2,3) by (metis distinct_card card_atLeastLessThan diff_zero set_upt)
  then have "is_permutation (length points) order"
    using p(2,3) by (simp add: is_permutation_def)
  then show ?thesis using p(1,4) fin by (simp add: round_trip_fp_def)
qed

text \<open>The heuristic solver returns when every call of haversine returns a distance below
  \<open>10^9\<close>.\<close>

lemma nn_loop_fp_returns:
  assumes legs: "\<And>a j. j < length points \<Longrightarrow>
                   \<exists>d. haversine_fp A a (coords (points ! j)) = Inr d \<and> d < 10 ^ 9"
    and "\<forall>i\<in>set unvisited. i < length points"
  shows "\<exists>r. nn_loop_fp A points unvisited current order tot = Inr r"
  using assms(2)
proof (induction "length unvisited" arbitrary: unvisited current order tot)
  case 0
  then show ?case by simp
next
  case (Suc n)
  let ?D = "\<lambda>j. leg A current (coords (points ! j))"
  have ne: "unvisited \<noteq> []" using Suc.hyps(2) by auto
  have ok: "\<forall>j\<in>set unvisited. \<exists>d. haversine_fp A current (coords (points ! j)) = Inr d"
    using legs Suc.prems by blast
  have small: "\<forall>j\<in>set unvisited. ?D j < 10 ^ 9"
  proof
    fix j assume "j \<in> set unvisited"
    then have "j < length points" using Suc.prems by simp
    from legs[OF this, of current] show "?D j < 10 ^ 9" by (auto simp: leg_def)
  qed
  have scan: "nn_scan_fp A current points unvisited (None, 10 ^ 9)
                = Inr (first_min ?D unvisited (None, 10 ^ 9))"
    using nn_scan_fp_char[OF Suc.prems, of A current "(None, 10 ^ 9)"] ok by simp
  have ex: "\<exists>j\<in>set unvisited. ?D j < 10 ^ 9" using ne small by (cases unvisited) auto
  from first_min_post[of ?D unvisited None "10 ^ 9"] ex obtain bd pre b post where
    fm: "first_min ?D unvisited (None, 10 ^ 9) = (Some b, bd)" and
    sp: "unvisited = pre @ b # post"
    by (auto split: if_splits)
  have bin: "b \<in> set unvisited" using sp by simp
  then have idx: "py_index points b = Inr (points ! b)"
    using Suc.prems by (simp add: py_index_def)
  have len: "n = length (remove1 b unvisited)"
    using Suc.hyps(2) bin by (simp add: length_remove1)
  have r: "\<forall>i\<in>set (remove1 b unvisited). i < length points"
    using Suc.prems by (meson notin_set_remove1)
  from Suc.hyps(1)[OF len r] obtain res where
    "nn_loop_fp A points (remove1 b unvisited) (coords (points ! b)) (order @ [b])
       (a_add A tot bd) = Inr res"
    by blast
  then have "nn_loop_fp A points unvisited current order tot = Inr res"
    using ne scan fm idx bin by (subst nn_loop_fp.simps) simp
  then show ?case by blast
qed

lemma nn_compute_fp_returns:
  assumes "\<And>a b. \<exists>d. haversine_fp A a b = Inr d \<and> d < 10 ^ 9"
  shows "\<exists>order tot. NearestNeighbour_compute_fp A start points = Inr (order, tot)"
proof -
  have "\<exists>r. nn_loop_fp A points [0..<length points] start [] 0 = Inr r"
    using assms by (intro nn_loop_fp_returns) simp_all
  then obtain order tot cur where
    "nn_loop_fp A points [0..<length points] start [] 0 = Inr (order, tot, cur)"
    by (metis prod_cases3)
  moreover obtain d where "haversine_fp A cur start = Inr d" using assms by blast
  ultimately show ?thesis by (simp add: NearestNeighbour_compute_fp_def)
qed

section \<open>The exact solver over any arithmetic\<close>

lemma round_trip_from_fp_error:
  "round_trip_from_fp A start current tot points perm = Inl e \<Longrightarrow> e = ValueError"
proof (induction perm arbitrary: current tot)
  case Nil
  then show ?case by (auto split: sum.splits dest: haversine_fp_error)
next
  case (Cons i rest)
  then show ?case by (auto split: sum.splits dest: haversine_fp_error)
qed

lemma bf_walk_fp_char:
  assumes "\<forall>i\<in>set perm. i < length points"
  shows "(case bf_walk_fp A points perm (current, tot) of
            Inl e \<Rightarrow> Inl e
          | Inr (cur', tot') \<Rightarrow>
              (case haversine_fp A cur' start of
                 Inl e \<Rightarrow> Inl e
               | Inr d \<Rightarrow> Inr (a_add A tot' d)))
         = round_trip_from_fp A start current tot points perm"
  using assms
proof (induction perm arbitrary: current tot)
  case Nil
  then show ?case by simp
next
  case (Cons i rest)
  have i: "py_index points i = Inr (points ! i)" using Cons.prems by (simp add: py_index_def)
  have r: "\<forall>j\<in>set rest. j < length points" using Cons.prems by simp
  show ?case
  proof (cases "haversine_fp A current (coords (points ! i))")
    case (Inl e)
    then show ?thesis by (simp add: i)
  next
    case (Inr d)
    then show ?thesis using Cons.IH[OF r] by (simp add: i)
  qed
qed

lemma bf_loop_fp_step:
  assumes "\<forall>i\<in>set perm. i < length points"
  shows "bf_loop_fp A start points (perm # rest) (bo, bd) =
           (case round_trip_fp A start points perm of
              Inl e \<Rightarrow> Inl e
            | Inr t \<Rightarrow>
                if t < bd then bf_loop_fp A start points rest (Some perm, t)
                else bf_loop_fp A start points rest (bo, bd))"
proof -
  note w = bf_walk_fp_char[OF assms, where A = A and current = start and tot = 0
      and start = start, folded round_trip_fp_def, symmetric]
  show ?thesis
  proof (cases "bf_walk_fp A points perm (start, 0)")
    case (Inl e)
    then have "round_trip_fp A start points perm = Inl e" using w by simp
    then show ?thesis using Inl by simp
  next
    case (Inr ct)
    obtain cur' tot' where ct: "ct = (cur', tot')" by (cases ct)
    show ?thesis
    proof (cases "haversine_fp A cur' start")
      case (Inl e)
      then have "round_trip_fp A start points perm = Inl e" using w Inr ct by simp
      then show ?thesis using Inl Inr ct by simp
    next
      case d: (Inr d)
      have "round_trip_fp A start points perm = Inr (a_add A tot' d)"
        using w Inr ct d by simp
      then show ?thesis using Inr ct d by simp
    qed
  qed
qed

lemma bf_loop_fp_char:
  assumes "\<forall>p\<in>set P. \<forall>i\<in>set p. i < length points"
  shows "bf_loop_fp A start points P st =
           (if \<forall>p\<in>set P. \<exists>t. round_trip_fp A start points p = Inr t
            then Inr (first_min (trip A start points) P st)
            else Inl ValueError)"
  using assms
proof (induction P arbitrary: st)
  case Nil
  then show ?case by (cases st) simp
next
  case (Cons perm rest)
  obtain bo bd where st: "st = (bo, bd)" by (cases st)
  have r: "\<forall>i\<in>set perm. i < length points" using Cons.prems by simp
  have ih: "\<And>st. bf_loop_fp A start points rest st =
           (if \<forall>p\<in>set rest. \<exists>t. round_trip_fp A start points p = Inr t
            then Inr (first_min (trip A start points) rest st)
            else Inl ValueError)"
    using Cons by simp
  show ?case
  proof (cases "round_trip_fp A start points perm")
    case (Inl e)
    then have "e = ValueError"
      unfolding round_trip_fp_def by (rule round_trip_from_fp_error)
    then show ?thesis unfolding st bf_loop_fp_step[OF r] using Inl by auto
  next
    case (Inr t)
    then have "trip A start points perm = t" by (simp add: trip_def)
    then show ?thesis unfolding st bf_loop_fp_step[OF r] using Inr by (auto simp: ih)
  qed
qed

lemma bf_compute_fp_post:
  assumes "BruteForce_compute_fp A start points = Inr (order, tot)"
  shows "is_permutation (length points) order \<and>
         round_trip_fp A start points order = Inr tot \<and>
         (\<forall>p. is_permutation (length points) p \<longrightarrow>
              (\<exists>t. round_trip_fp A start points p = Inr t \<and> tot \<le> t)) \<and>
         (\<forall>p. is_permutation (length points) p \<and> p \<noteq> order \<and>
              round_trip_fp A start points p = Inr tot \<longrightarrow> lex_less order p)"
proof -
  let ?N = "length points"
  let ?P = "permutations [0..<?N]"
  let ?T = "trip A start points"
  have setP: "set ?P = {p. is_permutation ?N p}" by (rule set_permutations_upt)
  have rng: "\<forall>p\<in>set ?P. \<forall>i\<in>set p. i < length points"
    unfolding setP by (simp add: is_permutation_def)
  from assms have loop: "bf_loop_fp A start points ?P (None, 10 ^ 9) = Inr (Some order, tot)"
    by (auto simp: BruteForce_compute_fp_def split: sum.splits option.splits)
  then have ok: "\<forall>p\<in>set ?P. \<exists>t. round_trip_fp A start points p = Inr t"
    and fm: "first_min ?T ?P (None, 10 ^ 9) = (Some order, tot)"
    unfolding bf_loop_fp_char[OF rng] by (auto split: if_splits)
  have val: "round_trip_fp A start points p = Inr (?T p)" if "is_permutation ?N p" for p
    using ok that unfolding setP by (auto simp: trip_def)
  from first_min_post[of ?T ?P None "10 ^ 9"] fm
  obtain pre post where
    p: "?P = pre @ order # post" "tot = ?T order"
       "\<forall>q\<in>set pre. tot < ?T q" "\<forall>q\<in>set post. tot \<le> ?T q"
    by (auto split: if_splits)
  have "order \<in> set ?P" using p(1) by simp
  then have operm: "is_permutation ?N order" unfolding setP by simp
  have sorted: "sorted_wrt lex_less (pre @ order # post)"
    using permutations_lex_sorted[of ?N] p(1) by simp
  have after: "\<forall>q\<in>set post. lex_less order q"
    using sorted by (simp add: sorted_wrt_append)
  have split: "q \<in> set pre \<or> q = order \<or> q \<in> set post" if "is_permutation ?N q" for q
  proof -
    from that have "q \<in> set ?P" unfolding setP by simp
    then show ?thesis unfolding p(1) by auto
  qed
  have minimal: "\<exists>t. round_trip_fp A start points q = Inr t \<and> tot \<le> t"
    if "is_permutation ?N q" for q
  proof -
    have "tot \<le> ?T q" using split[OF that] p(2,3,4) by auto
    then show ?thesis using val[OF that] by blast
  qed
  have first: "lex_less order q"
    if "is_permutation ?N q" "q \<noteq> order" "round_trip_fp A start points q = Inr tot" for q
  proof -
    have "?T q = tot" using that(3) by (simp add: trip_def)
    then show ?thesis using split[OF that(1)] that(2) p(3) after by auto
  qed
  show ?thesis using operm val[OF operm] p(2) minimal first by auto
qed

text \<open>The exact solver returns when the round trip of every permutation is computed and
  one of them is below \<open>10^9\<close>.\<close>

lemma bf_compute_fp_returns:
  assumes "\<forall>p. is_permutation (length points) p
              \<longrightarrow> (\<exists>t. round_trip_fp A start points p = Inr t)"
    and "is_permutation (length points) q" "round_trip_fp A start points q = Inr t" "t < 10 ^ 9"
  shows "\<exists>order tot. BruteForce_compute_fp A start points = Inr (order, tot)"
proof -
  let ?P = "permutations [0..<length points]"
  let ?T = "trip A start points"
  have setP: "set ?P = {p. is_permutation (length points) p}" by (rule set_permutations_upt)
  have rng: "\<forall>p\<in>set ?P. \<forall>i\<in>set p. i < length points"
    unfolding setP by (simp add: is_permutation_def)
  have ok: "\<forall>p\<in>set ?P. \<exists>t. round_trip_fp A start points p = Inr t"
    unfolding setP using assms(1) by simp
  have loop: "bf_loop_fp A start points ?P (None, 10 ^ 9)
                = Inr (first_min ?T ?P (None, 10 ^ 9))"
    using bf_loop_fp_char[OF rng, of A start "(None, 10 ^ 9)"] ok by simp
  have "?T q < 10 ^ 9" using assms(3,4) by (simp add: trip_def)
  then have ex: "\<exists>p\<in>set ?P. ?T p < 10 ^ 9" unfolding setP using assms(2) by blast
  from first_min_post[of ?T ?P None "10 ^ 9"] ex obtain bd b where
    "first_min ?T ?P (None, 10 ^ 9) = (Some b, bd)"
    by (auto split: if_splits)
  then show ?thesis using loop by (simp add: BruteForce_compute_fp_def)
qed

lemma exact_not_above_heuristic_fp:
  assumes "BruteForce_compute_fp A start points = Inr (bf_order, bf_total)"
    and "NearestNeighbour_compute_fp A start points = Inr (nn_order, nn_total)"
  shows "bf_total \<le> nn_total"
proof -
  from nn_compute_fp_post[OF assms(2)] have
    nn: "is_permutation (length points) nn_order"
        "round_trip_fp A start points nn_order = Inr nn_total"
    by simp_all
  from bf_compute_fp_post[OF assms(1)] nn(1) obtain t where
    "round_trip_fp A start points nn_order = Inr t" "bf_total \<le> t"
    by blast
  then show ?thesis using nn(2) by simp
qed

section \<open>The solvers on two requests in exact arithmetic\<close>













section \<open>haversine on antipodal points in double arithmetic\<close>

lemma doubles_at_8_rounding:
  "\<bar>1395694493897217 / 72057594037927936 - (5014239404989977 / 36028797018963968)\<^sup>2\<bar>
     < (1 / 2 ^ 59 :: real) \<and>
   \<bar>8832737443003841 / 9007199254740992
      - (4459770905381437 / 4503599627370496) * (4459770905381437 / 4503599627370496)\<bar>
     < (1 / 2 ^ 54 :: real) \<and>
   \<bar>4503599627370497 / 4503599627370496
      - (1395694493897217 / 72057594037927936 + 8832737443003841 / 9007199254740992)\<bar>
     < (1 / 2 ^ 53 :: real)"
  by (simp add: power2_eq_square)

lemma hav_x_doubles_at_8:
  "hav_x_fp doubles_at_8 (8, 0) (- 8, 180) = 4503599627370497 / 4503599627370496"
  by (simp add: hav_x_fp_def doubles_at_8_def radians_def)

lemma haversine_doubles_at_8: "haversine_fp doubles_at_8 (8, 0) (- 8, 180) = Inl ValueError"
proof -
  have "a_sub doubles_at_8 1 (4503599627370497 / 4503599627370496) < 0"
    by (simp add: doubles_at_8_def)
  then show ?thesis
    by (simp add: haversine_fp_def sqrt_fp_def hav_x_doubles_at_8 Let_def)
qed

section \<open>Properties of the distance model\<close>

text \<open>
  C5. Under exact real arithmetic haversine is symmetric, \<open>haversine(a, b) = haversine(b, a)\<close>
  for all points, and \<open>haversine(a, a)\<close> is exactly 0.
\<close>

theorem haversine_symmetric_and_zero:
  "haversine a b = haversine b a \<and> haversine a a = Inr 0"
  by (simp add: haversine_eq dist_km_sym[of a b] dist_km_self)

text \<open>
  C9 (the code breaks the claim). In exact arithmetic \<open>x\<close> is at most 1 at
  \<open>a = (8, 0)\<close>, \<open>b = (-8, 180)\<close>, as the claim says. In double arithmetic the
  rounded \<open>x\<close> is \<open>1 + 2^-52\<close>, so \<open>1 - x\<close> is negative, \<open>math.sqrt(1 - x)\<close>
  raises ValueError, and both solvers raise it on the request with this start and this one
  destination.
\<close>

theorem haversine_raises_at_antipodes:
  "hav_x (8, 0) (- 8, 180) \<le> 1 \<and>
   hav_x_fp doubles_at_8 (8, 0) (- 8, 180) = 4503599627370497 / 4503599627370496 \<and>
   haversine_fp doubles_at_8 (8, 0) (- 8, 180) = Inl ValueError \<and>
   NearestNeighbour_compute_fp doubles_at_8 (8, 0) [(- 8, 180, ''antipode'')] = Inl ValueError \<and>
   BruteForce_compute_fp doubles_at_8 (8, 0) [(- 8, 180, ''antipode'')] = Inl ValueError"
proof (intro conjI)
  show "hav_x (8, 0) (- 8, 180) \<le> 1" using hav_x_range by blast
  show "hav_x_fp doubles_at_8 (8, 0) (- 8, 180) = 4503599627370497 / 4503599627370496"
    by (rule hav_x_doubles_at_8)
  show "haversine_fp doubles_at_8 (8, 0) (- 8, 180) = Inl ValueError"
    by (rule haversine_doubles_at_8)
  show "NearestNeighbour_compute_fp doubles_at_8 (8, 0) [(- 8, 180, ''antipode'')]
          = Inl ValueError"
    by (simp add: NearestNeighbour_compute_fp_def py_index_def coords_def
        haversine_doubles_at_8)
  show "BruteForce_compute_fp doubles_at_8 (8, 0) [(- 8, 180, ''antipode'')] = Inl ValueError"
    by (simp add: BruteForce_compute_fp_def permutations_def py_index_def coords_def
        haversine_doubles_at_8)
qed

section \<open>Properties of the heuristic solver\<close>





section \<open>Properties of the exact solver\<close>





section \<open>Properties of both solvers\<close>



text \<open>
  C10. On an empty destination list both solvers return the empty order with total 0, and
  neither raises.
\<close>

theorem empty_destinations_return_zero:
  "NearestNeighbour_compute start [] = Inr ([], 0) \<and>
   BruteForce_compute start [] = Inr ([], 0)"
  using nn_empty bf_empty by blast

text \<open>
  C6 (the claim as stated fails). On the start point \<open>(51.5, -0.12)\<close> and an empty
  destination list neither solver raises: both return the empty order with total 0.
\<close>

theorem empty_destinations_not_rejected:
  "NearestNeighbour_compute (51.5, -0.12) [] = Inr ([], 0) \<and>
   BruteForce_compute (51.5, -0.12) [] = Inr ([], 0)"
  by (simp add: nn_empty bf_empty)

text \<open>
  C6 (as amended). An empty destination list is rejected by the caller: with a start query
  given, App.compute shows the error ``Need at least one destination'' and returns before
  either solver is called. The solvers themselves, given an empty list, return the empty
  order with total 0.
\<close>

theorem empty_destinations_rejected_by_caller:
  assumes "start_q \<noteq> []"
  shows "App_compute geocode start_q [] = ShowError ''Missing'' ''Need at least one destination'' \<and>
         NearestNeighbour_compute start [] = Inr ([], 0) \<and>
         BruteForce_compute start [] = Inr ([], 0)"
  using assms by (simp add: App_compute_def nn_empty bf_empty)

theorem empty_destinations_rejected_by_caller_witness:
  "''CM13 3ES'' \<noteq> [] \<and>
   App_compute (\<lambda>q. None) ''CM13 3ES'' []
     = ShowError ''Missing'' ''Need at least one destination'' \<and>
   NearestNeighbour_compute (51.5, -0.12) [] = Inr ([], 0) \<and>
   BruteForce_compute (51.5, -0.12) [] = Inr ([], 0)"
proof -
  have h: "''CM13 3ES'' \<noteq> []" by simp
  show ?thesis
    using empty_destinations_rejected_by_caller[OF h, of "\<lambda>q. None" "(51.5, -0.12)"] h
    by blast
qed

end
